theory Spec2Isabelle
  imports Main
begin

section \<open>Data model (frontend/src/types.ts)\<close>

text \<open>
  The enum \<^verbatim>\<open>TaskState\<close> and the interface \<^verbatim>\<open>Task\<close>. Task ids are the integers the
  backend assigns; the optional fields of the interface are options. The field
  \<^verbatim>\<open>id\<close> is called \<open>id'\<close> here, since \<open>id\<close> is the identity function of HOL.
\<close>

datatype TaskState = TODO | IN_PROGRESS | DONE | BLOCKED | BACKLOG

record Task =
  id' :: int
  title :: string
  description :: "string option"
  state :: TaskState
  blockers :: "int list"
  dependents :: "int list"
  created_at :: string
  updated_at :: string
  completed_at :: "string option"
  due_date :: "string option"

record CreateTaskPayload =
  c_title :: string
  c_description :: "string option"
  c_due_date :: "string option"
  c_state :: "TaskState option"

record UpdateTaskPayload =
  u_title :: "string option"
  u_description :: "string option"
  u_due_date :: "string option"
  u_state :: "TaskState option"

section \<open>The working copy: a JavaScript Map from ids to tasks\<close>

text \<open>
  A JavaScript \<^verbatim>\<open>Map\<close> keeps its keys in insertion order, and \<^verbatim>\<open>set\<close> on a key that
  is present replaces the value where it stands. The model is an association list:
  \<open>Map_get\<close> reads the first entry of a key, \<open>Map_set\<close> replaces that entry or appends
  a new one, \<open>new_Map\<close> is the constructor \<^verbatim>\<open>new Map(entries)\<close> and \<open>Map_values\<close> is
  \<^verbatim>\<open>Array.from(m.values())\<close>.
\<close>

type_synonym tasksMap = "(int \<times> Task) list"

fun Map_get :: "tasksMap \<Rightarrow> int \<Rightarrow> Task option" where
  "Map_get [] k = None"
| "Map_get ((k', v) # m) k = (if k' = k then Some v else Map_get m k)"

fun Map_set :: "tasksMap \<Rightarrow> int \<Rightarrow> Task \<Rightarrow> tasksMap" where
  "Map_set [] k v = [(k, v)]"
| "Map_set ((k', v') # m) k v = (if k' = k then (k, v) # m else (k', v') # Map_set m k v)"

definition new_Map :: "(int \<times> Task) list \<Rightarrow> tasksMap" where
  "new_Map entries = foldl (\<lambda>m (k, v). Map_set m k v) [] entries"

definition Map_values :: "tasksMap \<Rightarrow> Task list" where
  "Map_values m = map snd m"

section \<open>The evaluator (TaskContext.tsx, lines 27-35 and 78-86)\<close>

text \<open>
  \<^verbatim>\<open>isBlocked\<close>: no blockers, not blocked; otherwise some blocker that the map holds
  is not DONE. A blocker id the map does not hold does not block.
\<close>

definition isBlocked :: "Task \<Rightarrow> tasksMap \<Rightarrow> bool" where
  "isBlocked task tasksMap =
     (if length (blockers task) = 0 then False
      else list_ex (\<lambda>blockerId.
             case Map_get tasksMap blockerId of
               None \<Rightarrow> False
             | Some blocker \<Rightarrow> state blocker \<noteq> DONE) (blockers task))"

text \<open>
  The value of the variable \<^verbatim>\<open>newState\<close> after lines 78-86 of \<^verbatim>\<open>propagateUpdates\<close>.
\<close>

definition newState :: "Task \<Rightarrow> tasksMap \<Rightarrow> TaskState" where
  "newState task tasksMap =
     (let shouldBeBlocked = isBlocked task tasksMap in
      if shouldBeBlocked \<and> state task \<noteq> BLOCKED then BLOCKED
      else if \<not> shouldBeBlocked \<and> state task = BLOCKED then TODO
      else state task)"

section \<open>The convergence pass (TaskContext.tsx, lines 61-146)\<close>

text \<open>
  The local variables of \<^verbatim>\<open>propagateUpdates\<close>. The set \<^verbatim>\<open>visited\<close> is the list of its
  elements in insertion order; an id is added only after \<^verbatim>\<open>visited.has\<close> has failed
  for it, so \<^verbatim>\<open>visited.add\<close> appends.
\<close>

record pass =
  queue :: "int list"
  visited :: "int list"
  tasksMap :: tasksMap
  updatesToSync :: "(int \<times> TaskState) list"

text \<open>
  One iteration of the \<^verbatim>\<open>while\<close> loop (lines 70-145), entered with a non-empty queue.
  Both branches of the test \<^verbatim>\<open>newState !== task.state\<close> push the dependents that are
  not visited; only the first writes the map and the change list.
\<close>

definition body :: "pass \<Rightarrow> pass" where
  "body s =
     (case queue s of
        [] \<Rightarrow> s
      | taskId # rest \<Rightarrow>
          if taskId \<in> set (visited s) then s\<lparr>queue := rest\<rparr>
          else
            let visited' = visited s @ [taskId] in
            case Map_get (tasksMap s) taskId of
              None \<Rightarrow> s\<lparr>queue := rest, visited := visited'\<rparr>
            | Some task \<Rightarrow>
                let new = newState task (tasksMap s);
                    pushed = filter (\<lambda>depId. depId \<notin> set visited') (dependents task)
                in
                  if new \<noteq> state task then
                    s\<lparr>queue := rest @ pushed,
                      visited := visited',
                      tasksMap := Map_set (tasksMap s) taskId (task\<lparr>state := new\<rparr>),
                      updatesToSync := updatesToSync s @ [(taskId, new)]\<rparr>
                  else s\<lparr>queue := rest @ pushed, visited := visited'\<rparr>)"

text \<open>
  The work that is left: the ids in the queue, and the dependents of every task of the
  map whose id is not visited (the ids it may still push).
\<close>

definition pending :: "int list \<Rightarrow> tasksMap \<Rightarrow> nat" where
  "pending vis m = sum_list (map (\<lambda>(k, t). if k \<in> set vis then 0 else length (dependents t)) m)"

definition work :: "pass \<Rightarrow> nat" where
  "work s = length (queue s) + pending (visited s) (tasksMap s)"

lemma pending_Nil [simp]: "pending vis [] = 0"
  by (simp add: pending_def)

lemma pending_Cons [simp]:
  "pending vis ((k, t) # m) = (if k \<in> set vis then 0 else length (dependents t)) + pending vis m"
  by (simp add: pending_def)

lemma pending_visit_le: "pending (vis @ [k]) m \<le> pending vis m"
  by (induction m) (auto simp: add_le_mono)

lemma pending_visit_set:
  "Map_get m k = Some task \<Longrightarrow> k \<notin> set vis \<Longrightarrow> dependents task' = dependents task \<Longrightarrow>
     pending (vis @ [k]) (Map_set m k task') + length (dependents task) \<le> pending vis m"
proof (induction m)
  case Nil
  then show ?case by simp
next
  case (Cons p m)
  obtain k' v where p: "p = (k', v)" by (cases p)
  show ?case
  proof (cases "k' = k")
    case True
    with Cons.prems p have "v = task" by simp
    with True p Cons.prems(2) pending_visit_le [of vis k m] show ?thesis by simp
  next
    case False
    with Cons p show ?thesis by auto
  qed
qed

lemma pending_visit_get:
  "Map_get m k = Some task \<Longrightarrow> k \<notin> set vis \<Longrightarrow>
     pending (vis @ [k]) m + length (dependents task) \<le> pending vis m"
proof (induction m)
  case Nil
  then show ?case by simp
next
  case (Cons p m)
  obtain k' v where p: "p = (k', v)" by (cases p)
  show ?case
  proof (cases "k' = k")
    case True
    with Cons.prems p have "v = task" by simp
    with True p Cons.prems(2) pending_visit_le [of vis k m] show ?thesis by simp
  next
    case False
    with Cons p show ?thesis by auto
  qed
qed

lemma work_body: "queue s \<noteq> [] \<Longrightarrow> work (body s) < work s"
proof -
  assume "queue s \<noteq> []"
  then obtain taskId rest where q: "queue s = taskId # rest" by (cases "queue s") auto
  show ?thesis
  proof (cases "taskId \<in> set (visited s)")
    case True
    with q show ?thesis by (simp add: body_def work_def)
  next
    case unvisited: False
    show ?thesis
    proof (cases "Map_get (tasksMap s) taskId")
      case None
      with q unvisited pending_visit_le [of "visited s" taskId "tasksMap s"]
      show ?thesis by (simp add: body_def work_def)
    next
      case (Some task)
      let ?vis = "visited s @ [taskId]"
      let ?pushed = "filter (\<lambda>depId. depId \<notin> set ?vis) (dependents task)"
      let ?new = "newState task (tasksMap s)"
      have len: "length ?pushed \<le> length (dependents task)"
        by (rule length_filter_le)
      have before: "work s = Suc (length rest) + pending (visited s) (tasksMap s)"
        using q by (simp add: work_def)
      show ?thesis
      proof (cases "?new \<noteq> state task")
        case True
        have "pending ?vis (Map_set (tasksMap s) taskId (task\<lparr>state := ?new\<rparr>))
              + length (dependents task) \<le> pending (visited s) (tasksMap s)"
          using Some unvisited by (intro pending_visit_set) auto
        moreover have "work (body s) = length rest + length ?pushed
              + pending ?vis (Map_set (tasksMap s) taskId (task\<lparr>state := ?new\<rparr>))"
          using q unvisited Some True by (simp add: body_def work_def Let_def)
        ultimately show ?thesis using len before by linarith
      next
        case False
        have "pending ?vis (tasksMap s) + length (dependents task)
              \<le> pending (visited s) (tasksMap s)"
          using Some unvisited by (intro pending_visit_get) auto
        moreover have "work (body s) = length rest + length ?pushed + pending ?vis (tasksMap s)"
          using q unvisited Some False by (simp add: body_def work_def Let_def)
        ultimately show ?thesis using len before by linarith
      qed
    qed
  qed
qed

text \<open>The loop \<^verbatim>\<open>while (queue.length > 0)\<close>.\<close>

function loop :: "pass \<Rightarrow> pass" where
  "loop s = (if queue s = [] then s else loop (body s))"
  by pat_completeness auto
termination
  by (relation "measure work") (auto simp: work_body)

declare loop.simps [simp del]

text \<open>
  The same loop with a bound on the number of iterations: \<open>None\<close> when the bound is
  reached with ids still in the queue.
\<close>

fun run :: "nat \<Rightarrow> pass \<Rightarrow> pass option" where
  "run 0 s = (if queue s = [] then Some s else None)"
| "run (Suc n) s = (if queue s = [] then Some s else run n (body s))"

text \<open>
  The synchronous part of \<^verbatim>\<open>propagateUpdates\<close> (lines 62-146): the queue starts as a
  copy of \<^verbatim>\<open>initialIds\<close>, the visited set and the change list start empty, the map is
  built from the tasks by id (lines 62-67), and the loop runs.
\<close>

definition start :: "int list \<Rightarrow> Task list \<Rightarrow> pass" where
  "start initialIds currentTasks =
     \<lparr>queue = initialIds, visited = [],
      tasksMap = new_Map (map (\<lambda>t. (id' t, t)) currentTasks),
      updatesToSync = []\<rparr>"

definition convergence_pass :: "int list \<Rightarrow> Task list \<Rightarrow> pass" where
  "convergence_pass initialIds currentTasks = loop (start initialIds currentTasks)"

text \<open>
  The iteration that starts in \<open>s\<close> processes the id \<open>t\<close>: it takes \<open>t\<close> from the
  queue and \<open>t\<close> passes the test of line 71, so lines 72-145 run for it.
\<close>

definition processes :: "pass \<Rightarrow> int \<Rightarrow> bool" where
  "processes s t =
     (case queue s of [] \<Rightarrow> False | taskId # _ \<Rightarrow> taskId = t \<and> t \<notin> set (visited s))"

text \<open>
  The iteration that starts in \<open>s\<close> dequeues the id \<open>t\<close>: \<^verbatim>\<open>queue.shift()\<close> at line 70
  returns \<open>t\<close>, whether or not \<open>t\<close> is visited.
\<close>

definition dequeues :: "pass \<Rightarrow> int \<Rightarrow> bool" where
  "dequeues s t = (case queue s of [] \<Rightarrow> False | taskId # _ \<Rightarrow> taskId = t)"

section \<open>The backend and the operations of the provider (TaskContext.tsx, lines 148-234)\<close>

text \<open>
  A request to the backend (api.ts) resolves with a value or rejects with an error.
  \<open>api\<close> holds the answers of the backend during one operation, as a function of
  the request, so a request sent twice within one operation is answered the same way
  both times; the writes of one sync phase are for different ids. \<open>api_settles\<close> is
  the time at which the answer to a write of the sync phase arrives: the writes are all
  in flight together, and the answers come back in an order of their own.
\<close>

datatype error = Error string

record api =
  api_getTasks :: "error + Task list"
  api_createTask :: "CreateTaskPayload \<Rightarrow> error + Task"
  api_updateTask :: "int \<Rightarrow> UpdateTaskPayload \<Rightarrow> error + Task"
  api_deleteTask :: "int \<Rightarrow> error + unit"
  api_addDependency :: "int \<Rightarrow> int \<Rightarrow> error + unit"
  api_removeDependency :: "int \<Rightarrow> int \<Rightarrow> error + unit"
  api_settles :: "int \<Rightarrow> UpdateTaskPayload \<Rightarrow> nat"

text \<open>
  What one operation does: the React state \<^verbatim>\<open>tasks\<close> after it, the calls of
  \<^verbatim>\<open>api.updateTask\<close> its sync phase made (line 153), what it wrote with
  \<^verbatim>\<open>console.error\<close>, and whether its promise resolved or rejected.
\<close>

record outcome =
  tasks_now :: "Task list"
  patches :: "(int \<times> UpdateTaskPayload) list"
  console :: "error list"
  result :: "error + unit"

text \<open>The payload \<^verbatim>\<open>{ state: u.state }\<close> of line 153.\<close>

definition state_payload :: "TaskState \<Rightarrow> UpdateTaskPayload" where
  "state_payload st = \<lparr>u_title = None, u_description = None, u_due_date = None, u_state = Some st\<rparr>"

text \<open>
  \<^verbatim>\<open>Promise.all\<close> over promises that are all pending, each given with the time at
  which it settles and its outcome. It rejects as soon as one of them rejects, with that
  rejection: the one that settles first (JavaScript handles one answer at a time; of two
  with the same time the one earlier in the list is taken first). The rejections that
  settle later are dropped. When none rejects it resolves with the values in the order
  of the list.
\<close>

fun rejections :: "(error + 'a) list \<Rightarrow> error list" where
  "rejections [] = []"
| "rejections (Inl e # rs) = e # rejections rs"
| "rejections (Inr v # rs) = rejections rs"

fun resolutions :: "(error + 'a) list \<Rightarrow> 'a list" where
  "resolutions [] = []"
| "resolutions (Inl e # rs) = resolutions rs"
| "resolutions (Inr v # rs) = v # resolutions rs"

definition Promise_all :: "(nat \<times> (error + 'a)) list \<Rightarrow> error + 'a list" where
  "Promise_all promises =
     (case rejections (map snd (sort_key fst promises)) of
        e # _ \<Rightarrow> Inl e
      | [] \<Rightarrow> Inr (resolutions (map snd promises)))"

text \<open>
  \<^verbatim>\<open>propagateUpdates\<close>: the pass, then \<^verbatim>\<open>setTasks\<close> with the values of the map
  (line 149), then one \<^verbatim>\<open>api.updateTask\<close> per entry of the change list, all sent by
  \<^verbatim>\<open>updatesToSync.map\<close> before \<^verbatim>\<open>Promise.all\<close> is awaited (lines 152-154). The function
  has no \<^verbatim>\<open>catch\<close>: a rejection leaves it as it is.
\<close>

definition propagateUpdates :: "api \<Rightarrow> int list \<Rightarrow> Task list \<Rightarrow> outcome" where
  "propagateUpdates backend initialIds currentTasks =
     (let p = convergence_pass initialIds currentTasks;
          requests = map (\<lambda>(i, st). (i, state_payload st)) (updatesToSync p)
      in \<lparr>tasks_now = Map_values (tasksMap p),
          patches = requests,
          console = [],
          result =
            (if length (updatesToSync p) > 0
             then (case Promise_all
                         (map (\<lambda>(i, payload). (api_settles backend i payload,
                                                api_updateTask backend i payload)) requests) of
                     Inl e \<Rightarrow> Inl e
                   | Inr _ \<Rightarrow> Inr ())
             else Inr ())\<rparr>)"

text \<open>
  The handler \<^verbatim>\<open>catch (err) { console.error(err); throw err; }\<close> that closes every
  operation.
\<close>

definition catch_log_throw :: "outcome \<Rightarrow> outcome" where
  "catch_log_throw out =
     (case result out of Inl err \<Rightarrow> out\<lparr>console := console out @ [err]\<rparr> | Inr _ \<Rightarrow> out)"

text \<open>An operation that rejects at a backend call before it has set the state.\<close>

definition rejected :: "Task list \<Rightarrow> error \<Rightarrow> outcome" where
  "rejected tasks err = \<lparr>tasks_now = tasks, patches = [], console = [], result = Inl err\<rparr>"

text \<open>
  The five operations (lines 157-234), each on the state \<^verbatim>\<open>tasks\<close> it starts from.
\<close>

definition createTask :: "api \<Rightarrow> Task list \<Rightarrow> CreateTaskPayload \<Rightarrow> outcome" where
  "createTask backend tasks payload =
     catch_log_throw
       (case api_createTask backend payload of
          Inl err \<Rightarrow> rejected tasks err
        | Inr newTask \<Rightarrow>
            \<lparr>tasks_now = tasks @ [newTask], patches = [], console = [], result = Inr ()\<rparr>)"

definition updateTask :: "api \<Rightarrow> Task list \<Rightarrow> int \<Rightarrow> UpdateTaskPayload \<Rightarrow> outcome" where
  "updateTask backend tasks i payload =
     catch_log_throw
       (case api_updateTask backend i payload of
          Inl err \<Rightarrow> rejected tasks err
        | Inr updatedTask \<Rightarrow>
            (let newTasks = map (\<lambda>t. if id' t = i then updatedTask else t) tasks
             in propagateUpdates backend [i] newTasks))"

definition addDependency :: "api \<Rightarrow> Task list \<Rightarrow> int \<Rightarrow> int \<Rightarrow> outcome" where
  "addDependency backend tasks taskId blockerId =
     catch_log_throw
       (case api_addDependency backend taskId blockerId of
          Inl err \<Rightarrow> rejected tasks err
        | Inr _ \<Rightarrow>
            (case api_getTasks backend of
               Inl err \<Rightarrow> rejected tasks err
             | Inr data \<Rightarrow> propagateUpdates backend [taskId] data))"

definition removeDependency :: "api \<Rightarrow> Task list \<Rightarrow> int \<Rightarrow> int \<Rightarrow> outcome" where
  "removeDependency backend tasks taskId blockerId =
     catch_log_throw
       (case api_removeDependency backend taskId blockerId of
          Inl err \<Rightarrow> rejected tasks err
        | Inr _ \<Rightarrow>
            (case api_getTasks backend of
               Inl err \<Rightarrow> rejected tasks err
             | Inr data \<Rightarrow> propagateUpdates backend [taskId] data))"

definition deleteTask :: "api \<Rightarrow> Task list \<Rightarrow> int \<Rightarrow> outcome" where
  "deleteTask backend tasks i =
     catch_log_throw
       (case api_deleteTask backend i of
          Inl err \<Rightarrow> rejected tasks err
        | Inr _ \<Rightarrow>
            (case api_getTasks backend of
               Inl err \<Rightarrow> rejected tasks err
             | Inr data \<Rightarrow>
                 (let blockedTasks = map id' (filter (\<lambda>t. state t = BLOCKED) data)
                  in if length blockedTasks > 0 then propagateUpdates backend blockedTasks data
                     else \<lparr>tasks_now = data, patches = [], console = [], result = Inr ()\<rparr>)))"

section \<open>Reference definitions and concrete snapshots\<close>

text \<open>
  A task with the given id, state, blockers and dependents and empty texts, for the
  concrete snapshots below.
\<close>

definition mkTask :: "int \<Rightarrow> TaskState \<Rightarrow> int list \<Rightarrow> int list \<Rightarrow> Task" where
  "mkTask i s bs ds =
     \<lparr>id' = i, title = [], description = None, state = s, blockers = bs, dependents = ds,
      created_at = [], updated_at = [], completed_at = None, due_date = None\<rparr>"

subsection \<open>The reference definition, from the words of the specification\<close>

text \<open>
  The present blockers of a task are the tasks its blocker ids refer to in the
  snapshot; the task is blocked iff at least one of them has a state other than DONE.
\<close>

definition present_blockers :: "Task \<Rightarrow> tasksMap \<Rightarrow> Task list" where
  "present_blockers task g = List.map_filter (Map_get g) (blockers task)"

definition blocked_spec :: "Task \<Rightarrow> tasksMap \<Rightarrow> bool" where
  "blocked_spec task g = (\<exists>b \<in> set (present_blockers task g). state b \<noteq> DONE)"

text \<open>
  If blocked and the current state is not BLOCKED, the desired state is BLOCKED; if not
  blocked and the current state is BLOCKED, it is TODO; otherwise it is the current
  state.
\<close>

definition desired_spec :: "Task \<Rightarrow> tasksMap \<Rightarrow> TaskState" where
  "desired_spec task g =
     (if blocked_spec task g \<and> state task \<noteq> BLOCKED then BLOCKED
      else if \<not> blocked_spec task g \<and> state task = BLOCKED then TODO
      else state task)"

text \<open>
  Two tasks agree in every field but the state, and the second has the state of the
  first, or BLOCKED, or TODO.
\<close>

definition same_but_state :: "Task \<Rightarrow> Task \<Rightarrow> bool" where
  "same_but_state t t' =
     (t'\<lparr>state := state t\<rparr> = t \<and> (state t' = state t \<or> state t' = BLOCKED \<or> state t' = TODO))"

text \<open>The same for two maps, entry by entry, with the same keys in the same order.\<close>

definition frame :: "tasksMap \<Rightarrow> tasksMap \<Rightarrow> bool" where
  "frame m m' = list_all2 (\<lambda>e e'. fst e' = fst e \<and> same_but_state (snd e) (snd e')) m m'"

text \<open>
  The diamond: D (4) is blocked by B (2) and C (3), which are both blocked by A (1);
  A and B are DONE, D is BLOCKED, and the state of C is the parameter.
\<close>

definition diamond :: "TaskState \<Rightarrow> Task list" where
  "diamond c = [mkTask 1 DONE [] [2, 3], mkTask 2 DONE [1] [4], mkTask 3 c [1] [4],
                mkTask 4 BLOCKED [2, 3] []]"

text \<open>The cycle: 1 blocks 2 and 2 blocks 1, both TODO.\<close>

definition cycle :: "Task list" where
  "cycle = [mkTask 1 TODO [2] [2], mkTask 2 TODO [1] [1]]"

text \<open>A backend that rejects every request.\<close>

definition failing :: api where
  "failing =
     \<lparr>api_getTasks = Inl (Error ''500''),
      api_createTask = (\<lambda>_. Inl (Error ''500'')),
      api_updateTask = (\<lambda>_ _. Inl (Error ''500'')),
      api_deleteTask = (\<lambda>_. Inl (Error ''500'')),
      api_addDependency = (\<lambda>_ _. Inl (Error ''500'')),
      api_removeDependency = (\<lambda>_ _. Inl (Error ''500'')),
      api_settles = (\<lambda>_ _. 0)\<rparr>"

text \<open>
  The fan: 2 and 3, both DONE, are blocked by 1, whose state is the parameter. The
  backend \<open>flaky\<close> accepts the user's write to task 1 and rejects every other request:
  the write to task 2 with the error 502, and the write to task 3 with the error 503,
  which arrives first.
\<close>

definition fan :: "TaskState \<Rightarrow> Task list" where
  "fan a = [mkTask 1 a [] [2, 3], mkTask 2 DONE [1] [], mkTask 3 DONE [1] []]"

definition flaky :: api where
  "flaky = failing\<lparr>api_updateTask :=
     (\<lambda>i payload. if i = 1 then Inr (mkTask 1 TODO [] [2, 3])
                   else if i = 2 then Inl (Error ''502'')
                   else if i = 3 then Inl (Error ''503'')
                   else Inl (Error ''500'')),
     api_settles := (\<lambda>i payload. if i = 2 then 2 else 1)\<rparr>"

text \<open>
  The backend \<open>half\<close> accepts the user's write to task 1 and the sync write to task 3,
  and rejects the sync write to task 2.
\<close>

definition half :: api where
  "half = failing\<lparr>api_updateTask :=
     (\<lambda>i payload. if i = 1 then Inr (mkTask 1 TODO [] [2, 3])
                   else if i = 3 then Inr (mkTask 3 BLOCKED [1] [])
                   else Inl (Error ''502''))\<rparr>"

text \<open>
  The chain: 1 is blocked by 2 and 2 by 3; 3 and 1 are TODO and 2 is DONE (the backend
  stores the states it is sent and does not derive them). The ids are in the order of
  the snapshot.
\<close>

definition chain :: "Task list" where
  "chain = [mkTask 1 TODO [2] [], mkTask 2 DONE [3] [1], mkTask 3 TODO [] [2]]"

text \<open>
  The fork: 4 is blocked by 1 and 2, 2 by 1 and 3; 1 and 2 are DONE, 3 and 4 are TODO.
  The dependents of 1 are listed as 4, 2.
\<close>

definition fork :: "Task list" where
  "fork = [mkTask 1 DONE [] [4, 2], mkTask 2 DONE [1, 3] [4], mkTask 3 TODO [] [2],
           mkTask 4 TODO [1, 2] []]"

section \<open>Properties of the evaluator\<close>

lemma isBlocked_iff:
  "isBlocked task m \<longleftrightarrow>
     (\<exists>b \<in> set (blockers task). \<exists>bt. Map_get m b = Some bt \<and> state bt \<noteq> DONE)"
  by (auto simp: isBlocked_def list_ex_iff split: option.splits)

lemma blocked_spec_iff:
  "blocked_spec task m \<longleftrightarrow>
     (\<exists>b \<in> set (blockers task). \<exists>bt. Map_get m b = Some bt \<and> state bt \<noteq> DONE)"
  by (force simp: blocked_spec_def present_blockers_def List.map_filter_def)

text \<open>
  Claim C1. For every task and every snapshot the evaluator computes the reference
  desired state, and its blocked test is the reference one: blocked iff a blocker id
  that the snapshot holds refers to a task that is not DONE; BLOCKED when blocked and
  not yet BLOCKED, TODO when not blocked and BLOCKED, the current state otherwise. A
  task without blockers, or whose blocker ids are all absent, is not blocked.
\<close>

theorem C1_evaluator_refines_spec:
  "newState task g = desired_spec task g
   \<and> isBlocked task g = blocked_spec task g
   \<and> (blockers task = [] \<longrightarrow> \<not> isBlocked task g)
   \<and> ((\<forall>b \<in> set (blockers task). Map_get g b = None) \<longrightarrow> \<not> isBlocked task g)"
  by (auto simp: newState_def desired_spec_def Let_def isBlocked_iff blocked_spec_iff)

theorem C1_evaluator_refines_spec_witness:
  "desired_spec (mkTask 2 TODO [1, 7] []) [(1, mkTask 1 IN_PROGRESS [] [2])] = BLOCKED
   \<and> desired_spec (mkTask 2 BLOCKED [1, 7] []) [(1, mkTask 1 DONE [] [2])] = TODO
   \<and> \<not> isBlocked (mkTask 2 DONE [] []) [(1, mkTask 1 TODO [] [])]
   \<and> \<not> isBlocked (mkTask 2 DONE [7] []) [(1, mkTask 1 TODO [] [])]"
proof -
  have "newState (mkTask 2 TODO [1, 7] []) [(1, mkTask 1 IN_PROGRESS [] [2])] = BLOCKED"
    by (simp add: newState_def isBlocked_def mkTask_def)
  moreover have "newState (mkTask 2 BLOCKED [1, 7] []) [(1, mkTask 1 DONE [] [2])] = TODO"
    by (simp add: newState_def isBlocked_def mkTask_def)
  moreover have "blockers (mkTask 2 DONE [] []) = []"
    by (simp add: mkTask_def)
  moreover have "\<forall>b \<in> set (blockers (mkTask 2 DONE [7] [])). Map_get [(1, mkTask 1 TODO [] [])] b = None"
    by (simp add: mkTask_def)
  ultimately show ?thesis
    using C1_evaluator_refines_spec [of "mkTask 2 TODO [1, 7] []" "[(1, mkTask 1 IN_PROGRESS [] [2])]"]
      C1_evaluator_refines_spec [of "mkTask 2 BLOCKED [1, 7] []" "[(1, mkTask 1 DONE [] [2])]"]
      C1_evaluator_refines_spec [of "mkTask 2 DONE [] []" "[(1, mkTask 1 TODO [] [])]"]
      C1_evaluator_refines_spec [of "mkTask 2 DONE [7] []" "[(1, mkTask 1 TODO [] [])]"]
    by metis
qed

text \<open>
  Claim C6. A task whose state is DONE and that has a blocker, present in the snapshot,
  whose state is not DONE gets the desired state BLOCKED. The evaluator does not look at
  the current state before it tests the blockers: a blocked task gets BLOCKED whatever
  its state is, and a task that is not blocked keeps every state but BLOCKED.
\<close>

theorem C6_done_task_forced_blocked:
  "(state task = DONE \<and> b \<in> set (blockers task) \<and> Map_get g b = Some blocker
      \<and> state blocker \<noteq> DONE \<longrightarrow> newState task g = BLOCKED)
   \<and> (isBlocked task g \<longrightarrow> newState task g = BLOCKED)
   \<and> (\<not> isBlocked task g \<longrightarrow> newState task g = (if state task = BLOCKED then TODO else state task))"
  by (auto simp: newState_def Let_def isBlocked_iff)

theorem C6_done_task_forced_blocked_witness:
  "state (mkTask 3 DONE [1, 2] []) = DONE
   \<and> newState (mkTask 3 DONE [1, 2] []) [(1, mkTask 1 DONE [] [3]), (2, mkTask 2 IN_PROGRESS [] [3])]
       = BLOCKED"
proof -
  let ?g = "[(1, mkTask 1 DONE [] [3]), (2, mkTask 2 IN_PROGRESS [] [3])]"
  have "state (mkTask 3 DONE [1, 2] []) = DONE \<and> 2 \<in> set (blockers (mkTask 3 DONE [1, 2] []))
        \<and> Map_get ?g 2 = Some (mkTask 2 IN_PROGRESS [] [3])
        \<and> state (mkTask 2 IN_PROGRESS [] [3]) \<noteq> DONE"
    by (simp add: mkTask_def)
  then show ?thesis
    using C6_done_task_forced_blocked
      [of "mkTask 3 DONE [1, 2] []" 2 ?g "mkTask 2 IN_PROGRESS [] [3]"]
    by blast
qed

section \<open>Properties of the loop\<close>

lemma loop_Nil: "queue s = [] \<Longrightarrow> loop s = s"
  by (simp add: loop.simps)

lemma loop_step: "queue s \<noteq> [] \<Longrightarrow> loop s = loop (body s)"
  by (subst loop.simps) simp

lemma body_visited:
  "queue s = taskId # rest \<Longrightarrow> taskId \<in> set (visited s) \<Longrightarrow> body s = s\<lparr>queue := rest\<rparr>"
  by (simp add: body_def)

lemma body_absent:
  "queue s = taskId # rest \<Longrightarrow> taskId \<notin> set (visited s) \<Longrightarrow> Map_get (tasksMap s) taskId = None \<Longrightarrow>
     body s = s\<lparr>queue := rest, visited := visited s @ [taskId]\<rparr>"
  by (simp add: body_def)

lemma body_present:
  "queue s = taskId # rest \<Longrightarrow> taskId \<notin> set (visited s) \<Longrightarrow>
   Map_get (tasksMap s) taskId = Some task \<Longrightarrow>
     body s = s\<lparr>queue := rest @ filter (\<lambda>depId. depId \<notin> set (visited s @ [taskId])) (dependents task),
              visited := visited s @ [taskId],
              tasksMap := (if newState task (tasksMap s) \<noteq> state task
                           then Map_set (tasksMap s) taskId (task\<lparr>state := newState task (tasksMap s)\<rparr>)
                           else tasksMap s),
              updatesToSync := (if newState task (tasksMap s) \<noteq> state task
                           then updatesToSync s @ [(taskId, newState task (tasksMap s))]
                           else updatesToSync s)\<rparr>"
  by (simp add: body_def Let_def)

lemma loop_invariant:
  assumes "I s" and "\<And>s. I s \<Longrightarrow> queue s \<noteq> [] \<Longrightarrow> I (body s)"
  shows "I (loop s)"
  using assms(1)
proof (induction s rule: loop.induct)
  case (1 s)
  show ?case
  proof (cases "queue s = []")
    case True
    with 1 show ?thesis by (simp add: loop_Nil)
  next
    case False
    with 1 assms(2) show ?thesis by (simp add: loop_step)
  qed
qed


lemma convergence_pass_start: "convergence_pass ids tasks = loop (start ids tasks)"
  by (simp add: convergence_pass_def)

lemma queue_loop: "queue (loop s) = []"
  by (induction s rule: loop.induct) (metis loop_Nil loop_step)

lemma run_loop: "work s \<le> n \<Longrightarrow> run n s = Some (loop s)"
proof (induction n arbitrary: s)
  case 0
  then have "queue s = []" by (simp add: work_def)
  then show ?case by (simp add: loop_Nil)
next
  case (Suc n)
  show ?case
  proof (cases "queue s = []")
    case True
    then show ?thesis by (simp add: loop_Nil)
  next
    case False
    with Suc.prems work_body [of s] have "work (body s) \<le> n" by simp
    with Suc.IH False show ?thesis by (simp add: loop_step)
  qed
qed

lemma visited_body: "set (visited s) \<subseteq> set (visited (body s))"
  by (auto simp: body_def Let_def split: list.splits option.splits)

lemma visited_funpow: "set (visited s) \<subseteq> set (visited ((body ^^ n) s))"
proof (induction n)
  case 0
  then show ?case by simp
next
  case (Suc n)
  with visited_body [of "(body ^^ n) s"] show ?case by auto
qed

lemma processes_visited: "processes s t \<Longrightarrow> t \<in> set (visited (body s))"
  by (auto simp: processes_def body_def Let_def split: list.splits option.splits)

lemma processes_once:
  assumes "i < j" and "processes ((body ^^ i) s) t"
  shows "\<not> processes ((body ^^ j) s) t"
proof -
  from assms(1) obtain d where j: "j = d + Suc i"
    by (metis add.commute less_iff_Suc_add add_Suc_right add_Suc)
  have "t \<in> set (visited ((body ^^ Suc i) s))"
    using processes_visited [OF assms(2)] by simp
  with visited_funpow [of "(body ^^ Suc i) s" d]
  have "t \<in> set (visited ((body ^^ j) s))"
    unfolding j funpow_add by auto
  then show ?thesis by (auto simp: processes_def split: list.splits)
qed

text \<open>
  Claim C3. In an iteration that takes an id from the queue, finds it not visited and
  finds its task in the working copy, every id of the task's dependents list that is
  not in the visited set (which by then holds the id itself) is pushed on the queue, in
  the order of the list, whether or not the state of the task changed: the statement
  has no condition on the new state.
\<close>

theorem C3_dependents_enqueued:
  "queue s = taskId # rest \<Longrightarrow> taskId \<notin> set (visited s) \<Longrightarrow>
   Map_get (tasksMap s) taskId = Some task \<Longrightarrow>
     visited (body s) = visited s @ [taskId]
     \<and> queue (body s) = rest @ filter (\<lambda>depId. depId \<notin> set (visited (body s))) (dependents task)
     \<and> (\<forall>depId \<in> set (dependents task).
           depId \<notin> set (visited (body s)) \<longrightarrow> depId \<in> set (queue (body s)))"
  by (simp add: body_present)

theorem C3_dependents_enqueued_witness:
  "queue (body \<lparr>queue = [1, 9], visited = [5],
                 tasksMap = [(1, mkTask 1 TODO [] [2, 5, 1, 3])], updatesToSync = []\<rparr>) = [9, 2, 3]
   \<and> updatesToSync (body \<lparr>queue = [1, 9], visited = [5],
                 tasksMap = [(1, mkTask 1 TODO [] [2, 5, 1, 3])], updatesToSync = []\<rparr>) = []"
proof -
  let ?s = "\<lparr>queue = [1, 9], visited = [5],
             tasksMap = [(1, mkTask 1 TODO [] [2, 5, 1, 3])], updatesToSync = []\<rparr>"
  have "queue ?s = 1 # [9]" and "1 \<notin> set (visited ?s)"
    and "Map_get (tasksMap ?s) 1 = Some (mkTask 1 TODO [] [2, 5, 1, 3])"
    by simp_all
  from C3_dependents_enqueued [OF this]
  have "queue (body ?s) = [9] @ filter (\<lambda>depId. depId \<notin> set ([5] @ [1]))
                                  (dependents (mkTask 1 TODO [] [2, 5, 1, 3]))"
    by simp
  moreover have "updatesToSync (body ?s) = []"
    by (simp add: body_def newState_def isBlocked_def mkTask_def)
  ultimately show ?thesis by (simp add: mkTask_def)
qed

lemma dequeues_skip:
  "dequeues s t \<Longrightarrow> \<not> processes s t \<Longrightarrow> body s = s\<lparr>queue := tl (queue s)\<rparr>"
  by (auto simp: dequeues_def processes_def body_def split: list.splits)

text \<open>
  Claim C5, as the code has it. The loop ends on every state, so on every finite
  snapshot and every seed, cycles included: within as many iterations as the queue has
  ids plus the dependents of the tasks not yet visited, it returns the result of the
  pass with an empty queue. An id that an iteration has processed is in the visited set
  from then on, so no later iteration processes it again. An id can be dequeued again:
  an iteration that dequeues an id without processing it only drops it from the queue
  (line 71).
\<close>

theorem C5_pass_terminates:
  "run (work s) s = Some (loop s)
   \<and> run (length initialIds + pending [] (new_Map (map (\<lambda>t. (id' t, t)) currentTasks)))
        (start initialIds currentTasks) = Some (convergence_pass initialIds currentTasks)
   \<and> queue (convergence_pass initialIds currentTasks) = []
   \<and> (i < j \<and> processes ((body ^^ i) s) t \<longrightarrow> \<not> processes ((body ^^ j) s) t)
   \<and> (dequeues s t \<and> \<not> processes s t \<longrightarrow> body s = s\<lparr>queue := tl (queue s)\<rparr>)"
proof -
  have "work (start initialIds currentTasks)
        = length initialIds + pending [] (new_Map (map (\<lambda>t. (id' t, t)) currentTasks))"
    by (simp add: work_def start_def)
  then show ?thesis
    using run_loop [of s "work s"] run_loop [of "start initialIds currentTasks"]
      processes_once [of i j s t] dequeues_skip [of s t]
    by (auto simp: convergence_pass_start queue_loop)
qed

theorem C5_pass_terminates_witness:
  "run 4 (start [1, 1] cycle) = Some (convergence_pass [1, 1] cycle)
   \<and> processes (start [1, 1] cycle) 1
   \<and> queue (body (start [1, 1] cycle)) = [1, 2]
   \<and> \<not> processes (body (start [1, 1] cycle)) 1
   \<and> map state (Map_values (tasksMap (convergence_pass [1, 1] cycle))) = [BLOCKED, BLOCKED]"
proof -
  have w: "work (start [1, 1] cycle) = 4" by code_simp
  have p: "processes (start [1, 1] cycle) 1" by code_simp
  have q: "queue (body (start [1, 1] cycle)) = [1, 2]" by code_simp
  have r: "map state (Map_values (tasksMap (convergence_pass [1, 1] cycle))) = [BLOCKED, BLOCKED]"
    by code_simp
  from C5_pass_terminates [of "start [1, 1] cycle" "[1, 1]" cycle 0 "Suc 0" 1] w p q r
  show ?thesis by (simp add: convergence_pass_start)
qed

text \<open>
  The claim's "each task id is dequeued at most once" fails. In the diamond with C and D
  BLOCKED, seeded with A, the queue goes through [1], [2, 3], [3, 4], [4, 4], [4]: B and
  C each push D before D is visited, so D is dequeued by the iteration that starts
  after three steps, which processes it, and again by the next one, which skips it.
\<close>

theorem C5_id_dequeued_twice:
  "map (\<lambda>n. queue ((body ^^ n) (start [1] (diamond BLOCKED)))) [0, 1, 2, 3, 4, 5]
     = [[1], [2, 3], [3, 4], [4, 4], [4], []]
   \<and> (3::nat) < 4
   \<and> dequeues ((body ^^ 3) (start [1] (diamond BLOCKED))) 4
   \<and> dequeues ((body ^^ 4) (start [1] (diamond BLOCKED))) 4
   \<and> processes ((body ^^ 3) (start [1] (diamond BLOCKED))) 4
   \<and> \<not> processes ((body ^^ 4) (start [1] (diamond BLOCKED))) 4"
proof -
  have a: "map (\<lambda>n. queue ((body ^^ n) (start [1] (diamond BLOCKED)))) [0, 1, 2, 3, 4, 5]
     = [[1], [2, 3], [3, 4], [4, 4], [4], []]" by code_simp
  have b: "dequeues ((body ^^ 3) (start [1] (diamond BLOCKED))) 4" by code_simp
  have c: "dequeues ((body ^^ 4) (start [1] (diamond BLOCKED))) 4" by code_simp
  have d: "processes ((body ^^ 3) (start [1] (diamond BLOCKED))) 4" by code_simp
  have e: "\<not> processes ((body ^^ 4) (start [1] (diamond BLOCKED))) 4" by code_simp
  from a b c d e show ?thesis by simp
qed

section \<open>Properties of the change list\<close>

lemma updates_body:
  "distinct (map fst (updatesToSync s)) \<and> fst ` set (updatesToSync s) \<subseteq> set (visited s) \<Longrightarrow>
   distinct (map fst (updatesToSync (body s)))
   \<and> fst ` set (updatesToSync (body s)) \<subseteq> set (visited (body s))"
  by (auto simp: body_def Let_def split: list.splits option.splits)

lemma updates_distinct: "distinct (map fst (updatesToSync (convergence_pass ids tasks)))"
proof -
  let ?I = "\<lambda>s. distinct (map fst (updatesToSync s)) \<and> fst ` set (updatesToSync s) \<subseteq> set (visited s)"
  have "?I (start ids tasks)" by (simp add: start_def)
  then have "?I (loop (start ids tasks))"
    by (rule loop_invariant) (rule updates_body)
  then show ?thesis by (simp add: convergence_pass_start)
qed

lemma newState_cases:
  "newState task m = state task \<or> newState task m = BLOCKED \<or> newState task m = TODO"
  by (simp add: newState_def Let_def)

lemma updates_states_body:
  "\<forall>(i, st) \<in> set (updatesToSync s). st = BLOCKED \<or> st = TODO \<Longrightarrow>
   \<forall>(i, st) \<in> set (updatesToSync (body s)). st = BLOCKED \<or> st = TODO"
  using newState_cases
  by (auto simp: body_def Let_def split: list.splits option.splits)

lemma updates_states:
  "\<forall>(i, st) \<in> set (updatesToSync (convergence_pass ids tasks)). st = BLOCKED \<or> st = TODO"
proof -
  let ?I = "\<lambda>s. \<forall>(i, st) \<in> set (updatesToSync s). st = BLOCKED \<or> st = TODO"
  have "?I (start ids tasks)" by (simp add: start_def)
  then have "?I (loop (start ids tasks))"
    by (rule loop_invariant) (rule updates_states_body)
  then show ?thesis by (simp add: convergence_pass_start)
qed

lemma patches_propagateUpdates:
  "map fst (patches (propagateUpdates backend ids tasks))
   = map fst (updatesToSync (convergence_pass ids tasks))"
  by (simp add: propagateUpdates_def Let_def case_prod_unfold comp_def)

lemma patches_catch_log_throw [simp]: "patches (catch_log_throw out) = patches out"
  by (simp add: catch_log_throw_def split: sum.splits)

lemma tasks_now_catch_log_throw [simp]: "tasks_now (catch_log_throw out) = tasks_now out"
  by (simp add: catch_log_throw_def split: sum.splits)

lemma result_catch_log_throw [simp]: "result (catch_log_throw out) = result out"
  by (simp add: catch_log_throw_def split: sum.splits)

text \<open>
  Claim C7. In the diamond with A, B DONE and D BLOCKED, once C is DONE the pass seeded
  with C has the change list with the one entry (D, TODO), leaves D in TODO and sends
  one write for D; when the user moves C from TODO to DONE and the backend answers
  with C in DONE, \<^verbatim>\<open>updateTask\<close> sends that one write. In every pass the ids of the
  change list are distinct, so no task is written twice by a sync phase.
\<close>

theorem C7_change_list_distinct:
  "updatesToSync (convergence_pass [3] (diamond DONE)) = [(4, TODO)]
   \<and> map state (Map_values (tasksMap (convergence_pass [3] (diamond DONE))))
       = [DONE, DONE, DONE, TODO]
   \<and> patches (propagateUpdates backend [3] (diamond DONE)) = [(4, state_payload TODO)]
   \<and> (api_updateTask backend 3 (state_payload DONE) = Inr (mkTask 3 DONE [1] [4]) \<longrightarrow>
        patches (updateTask backend (diamond TODO) 3 (state_payload DONE))
        = [(4, state_payload TODO)])
   \<and> distinct (map fst (updatesToSync (convergence_pass initialIds currentTasks)))
   \<and> distinct (map fst (patches (propagateUpdates backend initialIds currentTasks)))"
proof -
  have a: "updatesToSync (convergence_pass [3] (diamond DONE)) = [(4, TODO)]"
    by code_simp
  have b: "map state (Map_values (tasksMap (convergence_pass [3] (diamond DONE))))
           = [DONE, DONE, DONE, TODO]"
    by code_simp
  have c: "patches (propagateUpdates backend [3] (diamond DONE)) = [(4, state_payload TODO)]"
    using a by (simp add: propagateUpdates_def Let_def)
  have "map (\<lambda>t. if id' t = 3 then mkTask 3 DONE [1] [4] else t) (diamond TODO) = diamond DONE"
    by (simp add: diamond_def mkTask_def)
  with c have d: "api_updateTask backend 3 (state_payload DONE) = Inr (mkTask 3 DONE [1] [4]) \<longrightarrow>
        patches (updateTask backend (diamond TODO) 3 (state_payload DONE))
        = [(4, state_payload TODO)]"
    by (simp add: updateTask_def Let_def)
  from a b c d updates_distinct show ?thesis
    by (simp add: patches_propagateUpdates)
qed

theorem C7_change_list_distinct_witness:
  "patches (updateTask (failing\<lparr>api_updateTask := (\<lambda>_ _. Inr (mkTask 3 DONE [1] [4]))\<rparr>)
              (diamond TODO) 3 (state_payload DONE))
   = [(4, state_payload TODO)]"
  using C7_change_list_distinct
    [of "failing\<lparr>api_updateTask := (\<lambda>_ _. Inr (mkTask 3 DONE [1] [4]))\<rparr>"]
  by simp

section \<open>What a pass leaves unchanged\<close>

lemma same_but_state_refl: "same_but_state t t"
  by (simp add: same_but_state_def)

lemma same_but_state_trans:
  "same_but_state t t' \<Longrightarrow> same_but_state t' t'' \<Longrightarrow> same_but_state t t''"
  by (cases t; cases t'; cases t'') (auto simp: same_but_state_def)

lemma frame_refl: "frame m m"
  by (simp add: frame_def list_all2_refl same_but_state_refl)

lemma frame_trans:
  assumes "frame m m'" and "frame m' m''"
  shows "frame m m''"
  unfolding frame_def
  by (rule list_all2_trans [OF _ assms(1) [unfolded frame_def] assms(2) [unfolded frame_def]])
    (auto intro: same_but_state_trans)

lemma frame_Map_set:
  "Map_get m k = Some task \<Longrightarrow> x = BLOCKED \<or> x = TODO \<Longrightarrow>
   frame m (Map_set m k (task\<lparr>state := x\<rparr>))"
proof (induction m)
  case Nil
  then show ?case by simp
next
  case (Cons e m)
  obtain k' v where e: "e = (k', v)" by (cases e)
  show ?case
  proof (cases "k' = k")
    case True
    with Cons.prems e have "v = task" by simp
    with True e Cons.prems(2) frame_refl [of m] show ?thesis
      by (auto simp: frame_def same_but_state_def)
  next
    case False
    with Cons e show ?thesis by (auto simp: frame_def same_but_state_refl)
  qed
qed

lemma frame_body: "frame (tasksMap s) (tasksMap (body s))"
proof (cases "queue s")
  case Nil
  then show ?thesis by (simp add: body_def frame_refl)
next
  case (Cons taskId rest)
  show ?thesis
  proof (cases "taskId \<in> set (visited s)")
    case True
    with Cons show ?thesis by (simp add: body_visited frame_refl)
  next
    case False
    show ?thesis
    proof (cases "Map_get (tasksMap s) taskId")
      case None
      with Cons False show ?thesis by (simp add: body_absent frame_refl)
    next
      case (Some task)
      with Cons False newState_cases [of task "tasksMap s"] show ?thesis
        by (auto simp: body_present frame_refl intro: frame_Map_set)
    qed
  qed
qed

lemma frame_loop: "frame (tasksMap s) (tasksMap (loop s))"
proof -
  have "frame (tasksMap s) (tasksMap s)" by (rule frame_refl)
  then show ?thesis
  proof (rule loop_invariant [where I = "\<lambda>s'. frame (tasksMap s) (tasksMap s')"])
    fix s' :: pass
    assume "frame (tasksMap s) (tasksMap s')"
    then show "frame (tasksMap s) (tasksMap (body s'))"
      using frame_body [of s'] by (rule frame_trans)
  qed
qed

lemma frame_keys: "frame m m' \<Longrightarrow> map fst m' = map fst m"
  unfolding frame_def by (induction m m' rule: list_all2_induct) auto


lemma set_Map_set: "set (Map_set m k v) \<subseteq> insert (k, v) (set m)"
  by (induction m) (auto split: if_splits)

lemma keys_Map_set: "fst ` set (Map_set m k v) = insert k (fst ` set m)"
  by (induction m) (auto split: if_splits simp: rev_image_eqI)

lemma Map_set_fresh: "k \<notin> fst ` set m \<Longrightarrow> Map_set m k v = m @ [(k, v)]"
  by (induction m) auto

lemma foldl_Map_set_set:
  "set (foldl (\<lambda>m (k, v). Map_set m k v) acc es) \<subseteq> set acc \<union> set es"
proof (induction es arbitrary: acc)
  case Nil
  then show ?case by simp
next
  case (Cons e es)
  obtain k v where e: "e = (k, v)" by (cases e)
  from Cons [of "Map_set acc k v"] set_Map_set [of acc k v] e show ?case by auto
qed

lemma foldl_Map_set_keys:
  "fst ` set (foldl (\<lambda>m (k, v). Map_set m k v) acc es) = fst ` set acc \<union> fst ` set es"
proof (induction es arbitrary: acc)
  case Nil
  then show ?case by simp
next
  case (Cons e es)
  obtain k v where e: "e = (k, v)" by (cases e)
  from Cons [of "Map_set acc k v"] e show ?case by (auto simp: keys_Map_set)
qed

lemma foldl_Map_set_distinct:
  "distinct (map fst (acc @ es)) \<Longrightarrow> foldl (\<lambda>m (k, v). Map_set m k v) acc es = acc @ es"
proof (induction es arbitrary: acc)
  case Nil
  then show ?case by simp
next
  case (Cons e es)
  obtain k v where e: "e = (k, v)" by (cases e)
  from Cons.prems e have fresh: "k \<notin> fst ` set acc" by auto
  from Cons.prems e have "distinct (map fst ((acc @ [(k, v)]) @ es))" by simp
  from Cons.IH [OF this] fresh e show ?case by (simp add: Map_set_fresh)
qed

lemma set_new_Map: "set (new_Map es) \<subseteq> set es"
  using foldl_Map_set_set [of "[]" es] by (simp add: new_Map_def)

lemma keys_new_Map: "fst ` set (new_Map es) = fst ` set es"
  using foldl_Map_set_keys [of "[]" es] by (simp add: new_Map_def)

lemma new_Map_distinct: "distinct (map fst es) \<Longrightarrow> new_Map es = es"
  using foldl_Map_set_distinct [of "[]" es] by (simp add: new_Map_def)

lemma same_but_state_id: "same_but_state t t' \<Longrightarrow> id' t' = id' t"
  by (cases t; cases t') (auto simp: same_but_state_def)

lemma frame_start:
  "frame (new_Map (map (\<lambda>t. (id' t, t)) tasks)) (tasksMap (convergence_pass ids tasks))"
  using frame_loop [of "start ids tasks"] by (simp add: convergence_pass_start start_def)

text \<open>
  Claim C10. A pass writes only the field \<^verbatim>\<open>state\<close>. The tasks it returns have the ids
  of the tasks it was given; each of them is a task of the input in all fields but the
  state (title, description, blockers, dependents, timestamps and due date), and when
  the ids of the input are distinct the output is the input, task by task, in the same
  order. A state that differs from the input's is BLOCKED or TODO, and so is every
  state in the change list.
\<close>

theorem C10_pass_changes_only_state:
  "set (map id' (Map_values (tasksMap (convergence_pass ids tasks)))) = set (map id' tasks)
   \<and> (\<forall>t' \<in> set (Map_values (tasksMap (convergence_pass ids tasks))).
         \<exists>t \<in> set tasks. same_but_state t t')
   \<and> (distinct (map id' tasks) \<longrightarrow>
         list_all2 same_but_state tasks (Map_values (tasksMap (convergence_pass ids tasks))))
   \<and> (\<forall>(i, st) \<in> set (updatesToSync (convergence_pass ids tasks)). st = BLOCKED \<or> st = TODO)"
proof -
  let ?es = "map (\<lambda>t. (id' t, t)) tasks"
  let ?m = "new_Map ?es"
  let ?F = "tasksMap (convergence_pass ids tasks)"
  have fr: "list_all2 (\<lambda>e e'. fst e' = fst e \<and> same_but_state (snd e) (snd e')) ?m ?F"
    using frame_start [of tasks ids] by (simp add: frame_def)
  have sub: "set ?m \<subseteq> set ?es" by (rule set_new_Map)
  have rel: "\<forall>e' \<in> set ?F. \<exists>t \<in> set tasks. fst e' = id' t \<and> same_but_state t (snd e')"
  proof
    fix e' assume "e' \<in> set ?F"
    then obtain n where n: "n < length ?F" "e' = ?F ! n"
      by (auto simp: in_set_conv_nth)
    from fr have len: "length ?m = length ?F" by (rule list_all2_lengthD)
    from fr n len have "fst e' = fst (?m ! n) \<and> same_but_state (snd (?m ! n)) (snd e')"
      by (simp add: list_all2_conv_all_nth)
    moreover from n len have "?m ! n \<in> set ?m" by simp
    ultimately obtain e where "e \<in> set ?m" "fst e' = fst e" "same_but_state (snd e) (snd e')"
      by blast
    moreover from this sub obtain t where "t \<in> set tasks" "e = (id' t, t)" by auto
    ultimately show "\<exists>t \<in> set tasks. fst e' = id' t \<and> same_but_state t (snd e')" by auto
  qed
  have keys: "map fst ?F = map fst ?m"
    using frame_start [of tasks ids] by (rule frame_keys)
  have ids_F: "map id' (map snd ?F) = map fst ?F"
  proof (rule nth_equalityI)
    show "length (map id' (map snd ?F)) = length (map fst ?F)" by simp
  next
    fix n assume "n < length (map id' (map snd ?F))"
    then have n: "n < length ?F" by simp
    then have "?F ! n \<in> set ?F" by simp
    with rel obtain t where "fst (?F ! n) = id' t" "same_but_state t (snd (?F ! n))" by blast
    with n show "map id' (map snd ?F) ! n = map fst ?F ! n"
      by (simp add: same_but_state_id)
  qed
  have one: "set (map id' (Map_values ?F)) = set (map id' tasks)"
  proof -
    have "set (map id' (Map_values ?F)) = fst ` set ?m"
      using ids_F keys by (simp add: Map_values_def)
    also have "\<dots> = fst ` set ?es" by (rule keys_new_Map)
    also have "\<dots> = set (map id' tasks)" by (simp add: image_image)
    finally show ?thesis .
  qed
  have two: "\<forall>t' \<in> set (Map_values ?F). \<exists>t \<in> set tasks. same_but_state t t'"
    using rel by (auto simp: Map_values_def)
  have three: "distinct (map id' tasks) \<longrightarrow> list_all2 same_but_state tasks (Map_values ?F)"
  proof
    assume "distinct (map id' tasks)"
    then have "?m = ?es" by (intro new_Map_distinct) (simp add: comp_def)
    with fr have "list_all2 (\<lambda>t e'. fst e' = id' t \<and> same_but_state t (snd e')) tasks ?F"
      by (simp add: list_all2_map1)
    then have "list_all2 (\<lambda>t e'. same_but_state t (snd e')) tasks ?F"
      by (rule list_all2_mono) simp
    then show "list_all2 same_but_state tasks (Map_values ?F)"
      by (simp add: Map_values_def list_all2_map2)
  qed
  from one two three updates_states [of ids tasks] show ?thesis by blast
qed

theorem C10_pass_changes_only_state_witness:
  "distinct (map id' (diamond DONE))
   \<and> list_all2 same_but_state (diamond DONE)
        (Map_values (tasksMap (convergence_pass [3] (diamond DONE))))"
proof -
  have "distinct (map id' (diamond DONE))"
    by (simp add: diamond_def mkTask_def)
  with C10_pass_changes_only_state [of "[3]" "diamond DONE"] show ?thesis by blast
qed

section \<open>The sync phase and the failure of a request\<close>

lemma set_rejections: "set (rejections rs) = {e. Inl e \<in> set rs}"
  by (induction rs rule: rejections.induct) auto

lemma first_rejection_sorted:
  "sorted (map fst xs) \<Longrightarrow> rejections (map snd xs) = e # es \<Longrightarrow>
     \<exists>t. (t, Inl e) \<in> set xs \<and> (\<forall>t' e'. (t', Inl e') \<in> set xs \<longrightarrow> t \<le> t')"
proof (induction xs)
  case Nil
  then show ?case by simp
next
  case (Cons x xs)
  obtain t0 r where x: "x = (t0, r)" by (cases x)
  from Cons.prems(1) x have later: "\<forall>y \<in> set xs. t0 \<le> fst y" and tl: "sorted (map fst xs)"
    by auto
  show ?case
  proof (cases r)
    case (Inl e0)
    with Cons.prems(2) x have "e0 = e" by simp
    with Inl x later show ?thesis by (intro exI [of _ t0]) auto
  next
    case (Inr v)
    with Cons.prems(2) x have "rejections (map snd xs) = e # es" by simp
    from Cons.IH [OF tl this] obtain t
      where t: "(t, Inl e) \<in> set xs" "\<forall>t' e'. (t', Inl e') \<in> set xs \<longrightarrow> t \<le> t'"
      by blast
    with Inr x show ?thesis by (intro exI [of _ t]) auto
  qed
qed

lemma Promise_all_Inl:
  assumes "Promise_all ps = Inl e"
  shows "\<exists>t. (t, Inl e) \<in> set ps \<and> (\<forall>t' e'. (t', Inl e') \<in> set ps \<longrightarrow> t \<le> t')"
proof -
  from assms obtain es where "rejections (map snd (sort_key fst ps)) = e # es"
    by (auto simp: Promise_all_def split: list.splits)
  from first_rejection_sorted [OF sorted_sort_key this] show ?thesis by simp
qed

lemma Promise_all_rejects:
  assumes "(t, Inl err) \<in> set ps"
  shows "\<exists>e. Promise_all ps = Inl e"
proof -
  from assms have "(t, Inl err) \<in> set (sort_key fst ps)" by simp
  then have "Inl err \<in> set (map snd (sort_key fst ps))" by force
  then have "err \<in> set (rejections (map snd (sort_key fst ps)))"
    by (simp only: set_rejections mem_Collect_eq)
  then show ?thesis
    by (cases "rejections (map snd (sort_key fst ps))") (auto simp: Promise_all_def)
qed

lemma console_catch_log_throw:
  "console (catch_log_throw out) = (case result out of Inl e \<Rightarrow> console out @ [e] | Inr _ \<Rightarrow> console out)"
  by (simp add: catch_log_throw_def split: sum.splits)

lemma result_propagateUpdates:
  "result (propagateUpdates backend ids cur)
   = (case Promise_all (map (\<lambda>(i, payload). (api_settles backend i payload,
                                               api_updateTask backend i payload))
                            (patches (propagateUpdates backend ids cur))) of
        Inl e \<Rightarrow> Inl e
      | Inr _ \<Rightarrow> Inr ())"
  by (auto simp: propagateUpdates_def Let_def Promise_all_def)

lemma propagateUpdates_rejects:
  assumes "(i, payload) \<in> set (patches (propagateUpdates backend ids cur))"
    and "api_updateTask backend i payload = Inl err"
  shows "\<exists>e. result (propagateUpdates backend ids cur) = Inl e"
proof -
  let ?ps = "map (\<lambda>(i, payload). (api_settles backend i payload, api_updateTask backend i payload))
               (patches (propagateUpdates backend ids cur))"
  from assms have "(api_settles backend i payload, Inl err) \<in> set ?ps" by force
  then obtain e where "Promise_all ?ps = Inl e"
    using Promise_all_rejects by blast
  then show ?thesis by (simp add: result_propagateUpdates)
qed

lemma propagateUpdates_reports:
  assumes "result (propagateUpdates backend ids cur) = Inl e"
  shows "\<exists>(w, sent) \<in> set (patches (propagateUpdates backend ids cur)).
           api_updateTask backend w sent = Inl e
           \<and> (\<forall>(j, other) \<in> set (patches (propagateUpdates backend ids cur)). \<forall>e2.
                 api_updateTask backend j other = Inl e2 \<longrightarrow>
                 api_settles backend w sent \<le> api_settles backend j other)"
proof -
  let ?ps = "map (\<lambda>(i, payload). (api_settles backend i payload, api_updateTask backend i payload))
               (patches (propagateUpdates backend ids cur))"
  from assms have "Promise_all ?ps = Inl e"
    by (simp add: result_propagateUpdates split: sum.splits)
  from Promise_all_Inl [OF this] obtain t
    where t: "(t, Inl e) \<in> set ?ps" "\<forall>t' e'. (t', Inl e') \<in> set ?ps \<longrightarrow> t \<le> t'"
    by blast
  from t(1) obtain w sent
    where ws: "(w, sent) \<in> set (patches (propagateUpdates backend ids cur))"
      "t = api_settles backend w sent" "api_updateTask backend w sent = Inl e"
    by auto
  have "\<forall>(j, other) \<in> set (patches (propagateUpdates backend ids cur)). \<forall>e2.
          api_updateTask backend j other = Inl e2 \<longrightarrow>
          api_settles backend w sent \<le> api_settles backend j other"
  proof (intro ballI, clarify)
    fix j other e2
    assume "(j, other) \<in> set (patches (propagateUpdates backend ids cur))"
      and "api_updateTask backend j other = Inl e2"
    then have "(api_settles backend j other, Inl e2) \<in> set ?ps" by force
    with t(2) ws(2) show "api_settles backend w sent \<le> api_settles backend j other" by blast
  qed
  with ws show ?thesis by blast
qed



text \<open>
  Claim C9. When the request of a mutation is rejected (\<^verbatim>\<open>api.createTask\<close>,
  \<^verbatim>\<open>api.updateTask\<close>, \<^verbatim>\<open>api.addDependency\<close>, \<^verbatim>\<open>api.removeDependency\<close>,
  \<^verbatim>\<open>api.deleteTask\<close>), the operation leaves the local tasks as they were, sends no
  sync write, logs the error and rejects with that same error. The same holds for the
  local tasks when the fetch of fresh data that follows an edge change or a deletion
  is rejected.
\<close>

theorem C9_failed_mutation_changes_nothing:
  "(api_createTask backend new = Inl err \<longrightarrow>
      createTask backend tasks new = \<lparr>tasks_now = tasks, patches = [], console = [err], result = Inl err\<rparr>)
   \<and> (api_updateTask backend i upd = Inl err \<longrightarrow>
      updateTask backend tasks i upd = \<lparr>tasks_now = tasks, patches = [], console = [err], result = Inl err\<rparr>)
   \<and> (api_addDependency backend i b = Inl err \<longrightarrow>
      addDependency backend tasks i b = \<lparr>tasks_now = tasks, patches = [], console = [err], result = Inl err\<rparr>)
   \<and> (api_removeDependency backend i b = Inl err \<longrightarrow>
      removeDependency backend tasks i b = \<lparr>tasks_now = tasks, patches = [], console = [err], result = Inl err\<rparr>)
   \<and> (api_deleteTask backend i = Inl err \<longrightarrow>
      deleteTask backend tasks i = \<lparr>tasks_now = tasks, patches = [], console = [err], result = Inl err\<rparr>)
   \<and> (api_getTasks backend = Inl err \<longrightarrow>
      tasks_now (addDependency backend tasks i b) = tasks
      \<and> tasks_now (removeDependency backend tasks i b) = tasks
      \<and> tasks_now (deleteTask backend tasks i) = tasks)"
  by (auto simp: createTask_def updateTask_def addDependency_def removeDependency_def deleteTask_def
      rejected_def catch_log_throw_def split: sum.splits)

theorem C9_failed_mutation_changes_nothing_witness:
  "createTask failing (fan DONE) \<lparr>c_title = ''new'', c_description = None, c_due_date = None, c_state = None\<rparr>
     = \<lparr>tasks_now = fan DONE, patches = [], console = [Error ''500''], result = Inl (Error ''500'')\<rparr>
   \<and> updateTask failing (fan DONE) 1 (state_payload TODO)
     = \<lparr>tasks_now = fan DONE, patches = [], console = [Error ''500''], result = Inl (Error ''500'')\<rparr>
   \<and> addDependency failing (fan DONE) 3 2
     = \<lparr>tasks_now = fan DONE, patches = [], console = [Error ''500''], result = Inl (Error ''500'')\<rparr>
   \<and> removeDependency failing (fan DONE) 3 1
     = \<lparr>tasks_now = fan DONE, patches = [], console = [Error ''500''], result = Inl (Error ''500'')\<rparr>
   \<and> deleteTask failing (fan DONE) 1
     = \<lparr>tasks_now = fan DONE, patches = [], console = [Error ''500''], result = Inl (Error ''500'')\<rparr>"
proof -
  let ?new = "\<lparr>c_title = ''new'', c_description = None, c_due_date = None, c_state = None\<rparr>"
  have "api_createTask failing ?new = Inl (Error ''500'')"
    and "api_updateTask failing 1 (state_payload TODO) = Inl (Error ''500'')"
    and "api_addDependency failing 3 2 = Inl (Error ''500'')"
    and "api_removeDependency failing 3 1 = Inl (Error ''500'')"
    and "api_deleteTask failing 1 = Inl (Error ''500'')"
    by (simp_all add: failing_def)
  with C9_failed_mutation_changes_nothing [of failing ?new "Error ''500''" "fan DONE" 1 "state_payload TODO" 2]
    C9_failed_mutation_changes_nothing [of failing ?new "Error ''500''" "fan DONE" 3 "state_payload TODO" 2]
    C9_failed_mutation_changes_nothing [of failing ?new "Error ''500''" "fan DONE" 3 "state_payload TODO" 1]
  show ?thesis by simp
qed

section \<open>Where one pass does not reach a stable state\<close>

text \<open>
  A task is evaluated once in a pass. When a blocker is evaluated after its dependent
  and is forced from DONE to BLOCKED, the dependent is not pushed again (line 99: it is
  visited), and keeps a state that was computed from the blocker's old state.
\<close>

text \<open>
  Claim C2, on the chain seeded with all its ids in the order of the snapshot: task 1
  is evaluated while 2 is still DONE and stays TODO, then 2 is forced to BLOCKED. In
  the converged snapshot task 1 is TODO, not BLOCKED, with its present blocker 2 in
  state BLOCKED, which is not DONE. The blocker graph is acyclic.
\<close>

theorem C2_full_pass_leaves_stale_dependent:
  "map state (Map_values (tasksMap (convergence_pass (map id' chain) chain)))
     = [TODO, BLOCKED, TODO]
   \<and> Map_get (tasksMap (convergence_pass (map id' chain) chain)) 1 = Some (mkTask 1 TODO [2] [])
   \<and> Map_get (tasksMap (convergence_pass (map id' chain) chain)) 2 = Some (mkTask 2 BLOCKED [3] [1])
   \<and> blocked_spec (mkTask 1 TODO [2] []) (tasksMap (convergence_pass (map id' chain) chain))
   \<and> updatesToSync (convergence_pass (map id' chain) chain) = [(2, BLOCKED)]"
proof -
  let ?F = "tasksMap (convergence_pass (map id' chain) chain)"
  have a: "map state (Map_values ?F) = [TODO, BLOCKED, TODO]" by code_simp
  have b: "Map_get ?F 1 = Some (mkTask 1 TODO [2] [])" by code_simp
  have c: "Map_get ?F 2 = Some (mkTask 2 BLOCKED [3] [1])" by code_simp
  have d: "isBlocked (mkTask 1 TODO [2] []) ?F" by code_simp
  have e: "updatesToSync (convergence_pass (map id' chain) chain) = [(2, BLOCKED)]" by code_simp
  from d have "blocked_spec (mkTask 1 TODO [2] []) ?F"
    by (simp add: isBlocked_iff blocked_spec_iff)
  with a b c e show ?thesis by simp
qed

text \<open>
  Claim C4, on the fork seeded with task 1: the first pass evaluates 4 before 2, keeps
  4 in TODO and forces 2 to BLOCKED. The second pass, on the result of the first and
  with the same seed, has the change list [(4, BLOCKED)], not the empty one, and
  changes the state of task 4. On the chain seeded with all its ids, the second pass
  has the change list [(1, BLOCKED)].
\<close>

theorem C4_second_pass_changes_state:
  "updatesToSync (convergence_pass [1] fork) = [(2, BLOCKED)]
   \<and> map state (Map_values (tasksMap (convergence_pass [1] fork))) = [DONE, BLOCKED, TODO, TODO]
   \<and> updatesToSync (convergence_pass [1] (Map_values (tasksMap (convergence_pass [1] fork))))
       = [(4, BLOCKED)]
   \<and> map state (Map_values (tasksMap
         (convergence_pass [1] (Map_values (tasksMap (convergence_pass [1] fork))))))
       = [DONE, BLOCKED, TODO, BLOCKED]
   \<and> updatesToSync (convergence_pass (map id' chain)
         (Map_values (tasksMap (convergence_pass (map id' chain) chain))))
       = [(1, BLOCKED)]"
proof -
  have a: "updatesToSync (convergence_pass [1] fork) = [(2, BLOCKED)]" by code_simp
  have b: "map state (Map_values (tasksMap (convergence_pass [1] fork)))
           = [DONE, BLOCKED, TODO, TODO]" by code_simp
  have c: "updatesToSync (convergence_pass [1] (Map_values (tasksMap (convergence_pass [1] fork))))
           = [(4, BLOCKED)]" by code_simp
  have d: "map state (Map_values (tasksMap
             (convergence_pass [1] (Map_values (tasksMap (convergence_pass [1] fork))))))
           = [DONE, BLOCKED, TODO, BLOCKED]" by code_simp
  have e: "updatesToSync (convergence_pass (map id' chain)
             (Map_values (tasksMap (convergence_pass (map id' chain) chain))))
           = [(1, BLOCKED)]" by code_simp
  from a b c d e show ?thesis by simp
qed

end
